theory Spec2Isabelle
  imports Main "HOL-Library.Monad_Syntax"
begin

section \<open>Data model (the tables of the migrations, as rows)\<close>

text \<open>
  Each table is a list of rows in insertion order. Identifiers are the INTEGER keys of
  the migration; timestamps are milliseconds since the epoch. Only the columns that the
  socket handlers and the thread endpoint of \<^verbatim>\<open>server/index.js\<close> read or write are kept.
\<close>

record user =
  user_id :: int
  username :: string

record message =
  m_id :: int
  m_content :: "string option"
  m_createdAt :: int
  isDeleted :: bool
  isPinned :: bool
  wasPinned :: bool
  m_userId :: int
  parentId :: "int option"

record reaction =
  r_id :: int
  r_emoji :: string
  r_userId :: int
  r_messageId :: int

record mention =
  mn_id :: int
  mn_userId :: int
  mn_messageId :: int
  isRead :: bool
  readAt :: "int option"

record message_history =
  h_messageId :: int
  oldContent :: string
  editedAt :: int

record message_read =
  rd_userId :: int
  rd_messageId :: int

record bookmark =
  b_userId :: int
  b_messageId :: int

text \<open>
  The persisted tables together with the one piece of process memory,
  \<^verbatim>\<open>readReceiptBuffer\<close>: a JavaScript \<^verbatim>\<open>Map\<close> from message id to a \<^verbatim>\<open>Set\<close> of user ids,
  both of which iterate in insertion order.
\<close>

record store =
  users :: "user list"
  messages :: "message list"
  reactions :: "reaction list"
  nextReactionId :: int
  mentions :: "mention list"
  history :: "message_history list"
  reads :: "message_read list"
  bookmarks :: "bookmark list"
  readReceiptBuffer :: "(int \<times> int list) list"

section \<open>Outgoing events\<close>

text \<open>
  \<open>General\<close> is the room every session joins, \<open>UserRoom u\<close> the room \<^verbatim>\<open>user_<u>\<close>,
  and \<open>Initiator\<close> the socket whose handler is running (\<^verbatim>\<open>socket.emit\<close>).
\<close>

datatype audience = General | UserRoom int | Initiator

datatype event =
    ErrorEv string
  | MessageUpdated message
  | MessageRestored "message option"
  | MessagePinned int bool
  | MessageDeleted int
  | ReactionRemoved int string int
  | ReactionAdded int int string int string
  | BookmarkUpdated "message option" bookmark bool
  | MentionReadStatus int int int string "int option"
  | MyMentionUpdated mention
  | ReadUpdateBatch int "int list"

type_synonym emitted = "(audience \<times> event) list"

datatype error = Unauthorized | EditTimeLimitExceeded | RecordNotFound | ForeignKeyViolation

fun error_message :: "error \<Rightarrow> string" where
  "error_message Unauthorized = ''Unauthorized''"
| "error_message EditTimeLimitExceeded = ''Edit time limit exceeded (5 mins)''"
| "error_message RecordNotFound = ''Record to update not found.''"
| "error_message ForeignKeyViolation = ''Foreign key constraint failed''"

section \<open>Store primitives\<close>

definition findUnique_message :: "store \<Rightarrow> int \<Rightarrow> message option" where
  "findUnique_message s i = find (\<lambda>m. m_id m = i) (messages s)"

definition findUnique_user :: "store \<Rightarrow> int \<Rightarrow> user option" where
  "findUnique_user s i = find (\<lambda>u. user_id u = i) (users s)"

text \<open>\<^verbatim>\<open>prisma.message.update({ where: { id }, data })\<close>: raises when no row has the id,
  otherwise rewrites the row and returns it.\<close>

definition update_message ::
  "int \<Rightarrow> (message \<Rightarrow> message) \<Rightarrow> store \<Rightarrow> error + (message \<times> store)" where
  "update_message i f s =
     (case findUnique_message s i of
        None \<Rightarrow> Inl RecordNotFound
      | Some m \<Rightarrow>
          Inr (f m, s\<lparr>messages := map (\<lambda>r. if m_id r = i then f r else r) (messages s)\<rparr>))"

text \<open>\<^verbatim>\<open>prisma.message.updateMany({ where, data })\<close>: never raises.\<close>

definition updateMany_message ::
  "(message \<Rightarrow> bool) \<Rightarrow> (message \<Rightarrow> message) \<Rightarrow> store \<Rightarrow> store" where
  "updateMany_message p f s = s\<lparr>messages := map (\<lambda>r. if p r then f r else r) (messages s)\<rparr>"

section \<open>Pin, delete and restore handlers\<close>

text \<open>\<^verbatim>\<open>socket.on('pin_message', ...)\<close>: the clearing \<^verbatim>\<open>updateMany\<close> and the
  \<^verbatim>\<open>update\<close> of the target are two separate store calls; when the second raises, the
  handler reports to the initiating socket and the first stays applied.\<close>

definition pin_message :: "user \<Rightarrow> int \<Rightarrow> bool \<Rightarrow> store \<Rightarrow> store \<times> emitted" where
  "pin_message currentUser messageId pinned s =
     (let s1 = (if pinned
                then updateMany_message (\<lambda>m. isPinned m) (\<lambda>m. m\<lparr>isPinned := False\<rparr>) s
                else s)
      in case update_message messageId (\<lambda>m. m\<lparr>isPinned := pinned\<rparr>) s1 of
           Inl e \<Rightarrow> (s1, [(Initiator, ErrorEv ''Failed to pin message'')])
         | Inr (updated, s2) \<Rightarrow> (s2, [(General, MessagePinned messageId pinned)]))"

text \<open>\<^verbatim>\<open>handleDeleteMessage\<close>: a missing row returns at once; user 1 may delete any
  message.\<close>

definition handleDeleteMessage :: "user \<Rightarrow> int \<Rightarrow> store \<Rightarrow> store \<times> emitted" where
  "handleDeleteMessage currentUser messageId s =
     (case findUnique_message s messageId of
        None \<Rightarrow> (s, [])
      | Some msg \<Rightarrow>
          if m_userId msg \<noteq> user_id currentUser \<and> user_id currentUser \<noteq> 1
          then (s, [(Initiator, ErrorEv (error_message Unauthorized))])
          else (case update_message messageId
                       (\<lambda>m. m\<lparr>isDeleted := True, isPinned := False, wasPinned := isPinned msg\<rparr>) s of
                  Inl e \<Rightarrow> (s, [(Initiator, ErrorEv (error_message e))])
                | Inr (updated, s1) \<Rightarrow>
                    (s1, (if isPinned msg then [(General, MessagePinned messageId False)] else [])
                         @ [(General, MessageDeleted messageId)])))"

text \<open>\<^verbatim>\<open>socket.on('restore_message', ...)\<close>: silent for a missing row and for a
  non-author; failures are only logged.\<close>

definition restore_message :: "user \<Rightarrow> int \<Rightarrow> store \<Rightarrow> store \<times> emitted" where
  "restore_message currentUser messageId s =
     (case findUnique_message s messageId of
        None \<Rightarrow> (s, [])
      | Some msg \<Rightarrow>
          if m_userId msg \<noteq> user_id currentUser then (s, [])
          else (case update_message messageId
                       (\<lambda>m. m\<lparr>isDeleted := False, isPinned := wasPinned msg, wasPinned := False\<rparr>) s of
                  Inl e \<Rightarrow> (s, [])
                | Inr (restored, s1) \<Rightarrow>
                    (let updatedMsg = findUnique_message s1 messageId
                     in (s1, [(General, MessageRestored updatedMsg)]
                             @ (if isPinned restored then [(General, MessagePinned messageId True)] else [])
                             @ map (\<lambda>bm. (UserRoom (b_userId bm), BookmarkUpdated updatedMsg bm True))
                                   (filter (\<lambda>bm. b_messageId bm = messageId) (bookmarks s1))))))"

section \<open>Edit handler\<close>

text \<open>
  \<^verbatim>\<open>socket.on('edit_message', ...)\<close>. \<open>sanitize\<close> stands for
  \<^verbatim>\<open>sanitizeHtml(_, sanitizeConfig)\<close> and \<open>now\<close> for \<^verbatim>\<open>Date.now()\<close>. A missing
  row and a foreign row raise the same \<^verbatim>\<open>Error("Unauthorized")\<close>; every raise is caught
  and sent to the initiating socket. The three writes run inside
  \<^verbatim>\<open>prisma.$transaction\<close>, so a raise in the last one restores the store.
\<close>

definition edit_message ::
  "(string \<Rightarrow> string) \<Rightarrow> int \<Rightarrow> user \<Rightarrow> int \<Rightarrow> string \<Rightarrow> store \<Rightarrow> store \<times> emitted" where
  "edit_message sanitize now currentUser messageId newContent s =
     (case findUnique_message s messageId of
        None \<Rightarrow> (s, [(Initiator, ErrorEv (error_message Unauthorized))])
      | Some msg \<Rightarrow>
          if m_userId msg \<noteq> user_id currentUser
          then (s, [(Initiator, ErrorEv (error_message Unauthorized))])
          else if now - m_createdAt msg > 5 * 60 * 1000
          then (s, [(Initiator, ErrorEv (error_message EditTimeLimitExceeded))])
          else
            (let cleanContent = sanitize newContent;
                 s1 = s\<lparr>history := history s @
                        [\<lparr>h_messageId = m_id msg,
                          oldContent = (case m_content msg of None \<Rightarrow> [] | Some c \<Rightarrow> c),
                          editedAt = now\<rparr>]\<rparr>;
                 s2 = s1\<lparr>mentions :=
                        map (\<lambda>mn. if mn_messageId mn = m_id msg
                                   then mn\<lparr>isRead := False, readAt := None\<rparr> else mn)
                            (mentions s1)\<rparr>
             in case update_message messageId (\<lambda>m. m\<lparr>m_content := Some cleanContent\<rparr>) s2 of
                  Inl e \<Rightarrow> (s, [(Initiator, ErrorEv (error_message e))])
                | Inr (updatedMessage, s3) \<Rightarrow> (s3, [(General, MessageUpdated updatedMessage)])))"

section \<open>Reaction toggler\<close>

definition findUnique_reaction :: "store \<Rightarrow> int \<Rightarrow> int \<Rightarrow> string \<Rightarrow> reaction option" where
  "findUnique_reaction s userId messageId emoji =
     find (\<lambda>r. r_userId r = userId \<and> r_messageId r = messageId \<and> r_emoji r = emoji)
          (reactions s)"

text \<open>\<^verbatim>\<open>prisma.reaction.create\<close>: the row needs an existing user and an existing message
  (the two foreign keys of the Reaction table); the id is the next AUTOINCREMENT value.\<close>

definition create_reaction :: "string \<Rightarrow> int \<Rightarrow> int \<Rightarrow> store \<Rightarrow> error + (reaction \<times> store)" where
  "create_reaction emoji userId messageId s =
     (if findUnique_user s userId = None \<or> findUnique_message s messageId = None
      then Inl ForeignKeyViolation
      else (let newReaction = \<lparr>r_id = nextReactionId s, r_emoji = emoji,
                                r_userId = userId, r_messageId = messageId\<rparr>
            in Inr (newReaction,
                    s\<lparr>reactions := reactions s @ [newReaction],
                      nextReactionId := nextReactionId s + 1\<rparr>)))"

text \<open>\<^verbatim>\<open>socket.on('toggle_reaction', ...)\<close>: a raise is only logged.\<close>

definition toggle_reaction :: "user \<Rightarrow> int \<Rightarrow> string \<Rightarrow> store \<Rightarrow> store \<times> emitted" where
  "toggle_reaction currentUser messageId emoji s =
     (let userId = user_id currentUser
      in case findUnique_reaction s userId messageId emoji of
           Some existingReaction \<Rightarrow>
             (s\<lparr>reactions := filter (\<lambda>r. r_id r \<noteq> r_id existingReaction) (reactions s)\<rparr>,
              [(General, ReactionRemoved messageId emoji userId)])
         | None \<Rightarrow>
             (case create_reaction emoji userId messageId s of
                Inl e \<Rightarrow> (s, [])
              | Inr (newReaction, s1) \<Rightarrow>
                  (s1, [(General, ReactionAdded messageId (r_id newReaction) (r_emoji newReaction)
                                    (r_userId newReaction) (username currentUser))])))"

section \<open>Read receipts\<close>

text \<open>\<^verbatim>\<open>prisma.messageRead.upsert\<close> with an empty update: an existing row is left as it
  is, a new row needs both foreign keys.\<close>

definition upsert_messageRead :: "int \<Rightarrow> int \<Rightarrow> store \<Rightarrow> error + store" where
  "upsert_messageRead userId messageId s =
     (if find (\<lambda>r. rd_userId r = userId \<and> rd_messageId r = messageId) (reads s) \<noteq> None
      then Inr s
      else if findUnique_user s userId = None \<or> findUnique_message s messageId = None
      then Inl ForeignKeyViolation
      else Inr (s\<lparr>reads := reads s @ [\<lparr>rd_userId = userId, rd_messageId = messageId\<rparr>]\<rparr>))"

text \<open>\<^verbatim>\<open>if (!buf.has(k)) buf.set(k, new Set()); buf.get(k).add(u)\<close>.\<close>

definition buffer_add :: "int \<Rightarrow> int \<Rightarrow> (int \<times> int list) list \<Rightarrow> (int \<times> int list) list" where
  "buffer_add messageId userId buf =
     (let buf1 = (if messageId \<in> set (map fst buf) then buf else buf @ [(messageId, [])])
      in map (\<lambda>(k, us). if k = messageId
                        then (k, if userId \<in> set us then us else us @ [userId])
                        else (k, us)) buf1)"

text \<open>\<^verbatim>\<open>socket.on('mark_read', ...)\<close>: the catch block is empty, and a raise of the upsert
  skips the buffer.\<close>

definition mark_read :: "user \<Rightarrow> int \<Rightarrow> store \<Rightarrow> store \<times> emitted" where
  "mark_read currentUser messageId s =
     (case upsert_messageRead (user_id currentUser) messageId s of
        Inl e \<Rightarrow> (s, [])
      | Inr s1 \<Rightarrow>
          (s1\<lparr>readReceiptBuffer :=
                 buffer_add messageId (user_id currentUser) (readReceiptBuffer s1)\<rparr>, []))"

text \<open>The body of the two-second \<^verbatim>\<open>setInterval\<close>.\<close>

definition flush_tick :: "store \<Rightarrow> store \<times> emitted" where
  "flush_tick s =
     (if length (readReceiptBuffer s) = 0 then (s, [])
      else (s\<lparr>readReceiptBuffer := []\<rparr>,
            map (\<lambda>(messageId, userIds). (General, ReadUpdateBatch messageId userIds))
                (readReceiptBuffer s)))"

section \<open>Mention acknowledgement\<close>

text \<open>
  \<^verbatim>\<open>socket.on('mark_mention_read', ...)\<close>: the row is looked up by its id alone and
  \<open>currentUser\<close> is never consulted. The update raises for a missing id (only logged).
  The included relations \<^verbatim>\<open>message\<close> and \<^verbatim>\<open>user\<close> are read after the write; a dangling
  one makes the property access raise, which is logged as well.
\<close>

definition mark_mention_read :: "int \<Rightarrow> user \<Rightarrow> int \<Rightarrow> store \<Rightarrow> store \<times> emitted" where
  "mark_mention_read now currentUser mentionId s =
     (case find (\<lambda>mn. mn_id mn = mentionId) (mentions s) of
        None \<Rightarrow> (s, [])
      | Some old \<Rightarrow>
          (let upd = (\<lambda>mn. mn\<lparr>isRead := True, readAt := Some now\<rparr>);
               mention = upd old;
               s1 = s\<lparr>mentions := map (\<lambda>mn. if mn_id mn = mentionId then upd mn else mn)
                                        (mentions s)\<rparr>
           in case (findUnique_message s1 (mn_messageId mention),
                    findUnique_user s1 (mn_userId mention)) of
                (Some msg, Some u) \<Rightarrow>
                  (s1, [(UserRoom (m_userId msg),
                           MentionReadStatus (mn_id mention) (mn_messageId mention)
                             (mn_userId mention) (username u) (readAt mention)),
                        (UserRoom (mn_userId mention), MyMentionUpdated mention)])
              | _ \<Rightarrow> (s1, [])))"

section \<open>Thread resolver\<close>

text \<open>
  \<^verbatim>\<open>GET /api/messages/:id/thread\<close>. The upward loop
  \<^verbatim>\<open>while (rootMessage.parentId) { ... if (!parent) break; rootMessage = parent; }\<close>
  has no bound of its own, so it is a partial function: \<open>None\<close> means that the loop
  never leaves. A \<^verbatim>\<open>parentId\<close> of \<^verbatim>\<open>null\<close> or \<^verbatim>\<open>0\<close> is falsy and ends it.
\<close>

partial_function (option) walk_up :: "store \<Rightarrow> message \<Rightarrow> message option" where
  "walk_up s rootMessage =
     (case parentId rootMessage of
        None \<Rightarrow> Some rootMessage
      | Some p \<Rightarrow>
          if p = 0 then Some rootMessage
          else (case findUnique_message s p of
                  None \<Rightarrow> Some rootMessage
                | Some parent \<Rightarrow> walk_up s parent))"

declare walk_up.simps [code]

definition MAX_DEPTH :: nat where
  "MAX_DEPTH = 50"

text \<open>\<^verbatim>\<open>findMany({ where: { parentId: { in: queue } }, orderBy: { createdAt: 'asc' } })\<close>;
  deleted rows are not filtered out.\<close>

definition findMany_children :: "store \<Rightarrow> int list \<Rightarrow> message list" where
  "findMany_children s queue =
     sort_key m_createdAt
       (filter (\<lambda>m. case parentId m of None \<Rightarrow> False | Some p \<Rightarrow> p \<in> set queue) (messages s))"

function expand :: "store \<Rightarrow> int list \<Rightarrow> nat \<Rightarrow> message list \<Rightarrow> message list" where
  "expand s queue depth allReplies =
     (if length queue > 0 \<and> depth < MAX_DEPTH
      then (if length (findMany_children s queue) = 0 then allReplies
            else expand s (map m_id (findMany_children s queue)) (depth + 1)
                        (allReplies @ findMany_children s queue))
      else allReplies)"
  by pat_completeness auto
termination
  by (relation "measure (\<lambda>(s, queue, depth, allReplies). MAX_DEPTH - depth)") auto

datatype response = NotFound404 | Ok200 message "message list"

definition get_thread :: "store \<Rightarrow> int \<Rightarrow> response option" where
  "get_thread s startId =
     (case findUnique_message s startId of
        None \<Rightarrow> Some NotFound404
      | Some start \<Rightarrow>
          do { rootMessage \<leftarrow> walk_up s start;
               Some (Ok200 rootMessage
                       (sort_key m_createdAt (expand s [m_id rootMessage] 0 []))) })"

section \<open>Serial runs of handlers\<close>

datatype op =
    PinMessage user int bool
  | DeleteMessage user int
  | RestoreMessage user int

fun apply_op :: "op \<Rightarrow> store \<Rightarrow> store \<times> emitted" where
  "apply_op (PinMessage u i b) s = pin_message u i b s"
| "apply_op (DeleteMessage u i) s = handleDeleteMessage u i s"
| "apply_op (RestoreMessage u i) s = restore_message u i s"

fun run_ops :: "op list \<Rightarrow> store \<Rightarrow> store" where
  "run_ops [] s = s"
| "run_ops (x # xs) s = run_ops xs (fst (apply_op x s))"

definition empty_store :: store where
  "empty_store = \<lparr>users = [], messages = [], reactions = [], nextReactionId = 1, mentions = [],
     history = [], reads = [], bookmarks = [], readReceiptBuffer = []\<rparr>"

definition mk_message :: "int \<Rightarrow> int \<Rightarrow> int option \<Rightarrow> message" where
  "mk_message i author parent =
     \<lparr>m_id = i, m_content = Some ''hi'', m_createdAt = 1000 * i, isDeleted = False,
      isPinned = False, wasPinned = False, m_userId = author, parentId = parent\<rparr>"

definition mk_user :: "int \<Rightarrow> user" where
  "mk_user i = \<lparr>user_id = i, username = ''u''\<rparr>"

section \<open>Observations on the reaction and read-receipt tables\<close>

text \<open>The columns of the unique index \<^verbatim>\<open>Reaction_userId_messageId_emoji_key\<close>.\<close>

definition reaction_keys :: "store \<Rightarrow> (int \<times> int \<times> string) list" where
  "reaction_keys s = map (\<lambda>r. (r_userId r, r_messageId r, r_emoji r)) (reactions s)"

definition has_reaction :: "store \<Rightarrow> int \<Rightarrow> int \<Rightarrow> string \<Rightarrow> bool" where
  "has_reaction s userId messageId emoji = ((userId, messageId, emoji) \<in> set (reaction_keys s))"

text \<open>Every reaction row points at an existing user and an existing message.\<close>

definition reactions_fk :: "store \<Rightarrow> bool" where
  "reactions_fk s =
     list_all (\<lambda>r. findUnique_user s (r_userId r) \<noteq> None
                  \<and> findUnique_message s (r_messageId r) \<noteq> None) (reactions s)"

fun run_toggles :: "(user \<times> int \<times> string) list \<Rightarrow> store \<Rightarrow> store" where
  "run_toggles [] s = s"
| "run_toggles ((u, messageId, emoji) # ts) s =
     run_toggles ts (fst (toggle_reaction u messageId emoji s))"

text \<open>The columns of the unique index \<^verbatim>\<open>MessageRead_userId_messageId_key\<close>.\<close>

definition read_keys :: "store \<Rightarrow> (int \<times> int) list" where
  "read_keys s = map (\<lambda>r. (rd_userId r, rd_messageId r)) (reads s)"

text \<open>What a \<^verbatim>\<open>Map\<close> of \<^verbatim>\<open>Set\<close>s is: no key twice, no member twice.\<close>

definition buffer_ok :: "(int \<times> int list) list \<Rightarrow> bool" where
  "buffer_ok buf = (distinct (map fst buf) \<and> list_all (\<lambda>(k, us). distinct us) buf)"

text \<open>User \<open>userId\<close> is a member of the buffer's set for message \<open>messageId\<close>.\<close>

definition buffered :: "(int \<times> int list) list \<Rightarrow> int \<Rightarrow> int \<Rightarrow> bool" where
  "buffered buf messageId userId = list_ex (\<lambda>(k, us). k = messageId \<and> userId \<in> set us) buf"

fun run_mark_reads :: "(user \<times> int) list \<Rightarrow> store \<Rightarrow> store" where
  "run_mark_reads [] s = s"
| "run_mark_reads ((u, messageId) # cs) s = run_mark_reads cs (fst (mark_read u messageId s))"

text \<open>All user ids that a list of emitted events announces as readers of one message.\<close>

fun batch_userIds :: "emitted \<Rightarrow> int \<Rightarrow> int list" where
  "batch_userIds [] messageId = []"
| "batch_userIds ((a, ReadUpdateBatch k us) # evs) messageId =
     (if k = messageId then us else []) @ batch_userIds evs messageId"
| "batch_userIds (ev # evs) messageId = batch_userIds evs messageId"

section \<open>Example stores\<close>

definition two_messages :: store where
  "two_messages =
     empty_store\<lparr>users := [mk_user 1],
                 messages := [mk_message 1 1 None, mk_message 2 1 None]\<rparr>"

definition self_parent :: store where
  "self_parent = empty_store\<lparr>users := [mk_user 1], messages := [mk_message 1 1 (Some 1)]\<rparr>"

definition pinned_store :: store where
  "pinned_store =
     empty_store\<lparr>users := [mk_user 1],
                 messages := [(mk_message 1 1 None)\<lparr>isPinned := True\<rparr>]\<rparr>"

definition reacted_store :: store where
  "reacted_store =
     two_messages\<lparr>reactions := [\<lparr>r_id = 1, r_emoji = ''+1'', r_userId = 1, r_messageId = 2\<rparr>],
                  nextReactionId := 2\<rparr>"

definition mention_store :: store where
  "mention_store =
     empty_store\<lparr>users := [mk_user 1, mk_user 2, mk_user 3],
                 messages := [mk_message 1 1 None],
                 mentions := [\<lparr>mn_id = 1, mn_userId = 2, mn_messageId = 1,
                               isRead = False, readAt = None\<rparr>]\<rparr>"

definition acked_store :: store where
  "acked_store =
     empty_store\<lparr>users := [mk_user 1, mk_user 2],
                 messages := [mk_message 1 1 None],
                 mentions := [\<lparr>mn_id = 1, mn_userId = 2, mn_messageId = 1,
                               isRead = True, readAt = Some 1500\<rparr>]\<rparr>"

section \<open>Pin coordinator\<close>

lemmas store_defs =
  empty_store_def mk_message_def mk_user_def findUnique_message_def findUnique_user_def
  update_message_def updateMany_message_def

text \<open>What the pin handler does achieve on its own: after pinning an existing message,
  no row with another id is pinned.\<close>

lemma find_id_map:
  "find (\<lambda>m. m_id m = i) xs \<noteq> None \<Longrightarrow> (\<And>r. m_id (g r) = m_id r) \<Longrightarrow>
   find (\<lambda>m. m_id m = i) (map g xs) \<noteq> None"
  by (induction xs) auto

lemma pin_message_clears_others:
  assumes "findUnique_message s i = Some m"
  shows "list_all (\<lambda>r. isPinned r \<longrightarrow> m_id r = i) (messages (fst (pin_message u i True s)))"
proof -
  have "find (\<lambda>m. m_id m = i)
          (map (\<lambda>r. if isPinned r then r\<lparr>isPinned := False\<rparr> else r) (messages s)) \<noteq> None"
    using assms by (intro find_id_map) (simp_all add: findUnique_message_def)
  then show ?thesis
    by (auto simp: pin_message_def update_message_def updateMany_message_def
          findUnique_message_def list_all_iff)
qed

text \<open>
  Claim C1 (global pin mutual exclusion over serial runs of pin, delete and restore).
  The pin handler clears every other pin before it sets one, but the restore handler
  copies \<open>wasPinned\<close> back into \<open>isPinned\<close> without clearing anything. Pinning message 1,
  deleting it, pinning message 2 and restoring message 1 leaves both messages pinned.
\<close>

theorem restore_breaks_pin_exclusion:
  "map (\<lambda>m. (m_id m, isPinned m))
     (messages (run_ops [PinMessage (mk_user 1) 1 True, DeleteMessage (mk_user 1) 1,
                         PinMessage (mk_user 1) 2 True, RestoreMessage (mk_user 1) 1]
                        two_messages))
   = [(1, True), (2, True)]"
  by (simp add: two_messages_def store_defs pin_message_def handleDeleteMessage_def
        restore_message_def)

text \<open>
  Claim C3 (a mutation commits with its broadcast or leaves the store as it was).
  Pinning an absent id while message 1 is pinned: the clearing write has been applied when
  the update of the target raises, so message 1 loses its pin, nothing is broadcast and
  only the initiating socket hears of a failure.
\<close>

theorem pin_message_absent_target_partial:
  "pin_message (mk_user 1) 99 True pinned_store =
     (pinned_store\<lparr>messages := [mk_message 1 1 None]\<rparr>,
      [(Initiator, ErrorEv ''Failed to pin message'')])
   \<and> pinned_store\<lparr>messages := [mk_message 1 1 None]\<rparr> \<noteq> pinned_store"
  by (simp add: pinned_store_def store_defs pin_message_def)

section \<open>Message lifecycle\<close>

lemma find_map_update:
  "find (\<lambda>m. m_id m = i) xs = Some m \<Longrightarrow> (\<And>r. m_id (f r) = m_id r) \<Longrightarrow>
   find (\<lambda>m. m_id m = i) (map (\<lambda>r. if m_id r = i then f r else r) xs) = Some (f m)"
  by (induction xs) (auto split: if_splits)

lemma update_message_found:
  assumes "findUnique_message s i = Some m" and "\<And>r. m_id (f r) = m_id r"
  shows "\<exists>s'. update_message i f s = Inr (f m, s') \<and> findUnique_message s' i = Some (f m)
          \<and> s' = s\<lparr>messages := map (\<lambda>r. if m_id r = i then f r else r) (messages s)\<rparr>"
  using assms find_map_update[of i "messages s" m f]
  by (simp add: update_message_def findUnique_message_def)

lemma findUnique_message_id: "findUnique_message s i = Some m \<Longrightarrow> m_id m = i"
  by (auto simp: findUnique_message_def find_Some_iff)

text \<open>
  Claim C4 as the code has it (a missing target on delete or edit). Deleting an id that
  resolves to no message changes nothing, broadcasts nothing and reports nothing. Editing
  such an id changes nothing and broadcasts nothing either, but the handler raises
  "Unauthorized" for it, which goes to the initiating socket alone.
\<close>

theorem missing_target_delete_edit:
  assumes "findUnique_message s messageId = None"
  shows "handleDeleteMessage u messageId s = (s, [])
       \<and> edit_message sanitize now u messageId newContent s
           = (s, [(Initiator, ErrorEv ''Unauthorized'')])"
  using assms by (simp add: handleDeleteMessage_def edit_message_def)

theorem missing_target_delete_edit_witness:
  "handleDeleteMessage (mk_user 1) 7 empty_store = (empty_store, [])
   \<and> edit_message id 0 (mk_user 1) 7 ''x'' empty_store
       = (empty_store, [(Initiator, ErrorEv ''Unauthorized'')])"
proof -
  have h: "findUnique_message empty_store 7 = None" by (simp add: store_defs)
  show ?thesis by (rule missing_target_delete_edit[OF h])
qed

text \<open>
  Claim C4 as stated (an edit of a missing message reports no error to the actor) fails:
  on the empty store, where id 7 resolves to nothing, the edit sends an error event.
\<close>

theorem edit_missing_reports_error:
  "findUnique_message empty_store 7 = None
   \<and> snd (edit_message id 0 (mk_user 1) 7 ''x'' empty_store)
       = [(Initiator, ErrorEv ''Unauthorized'')]
   \<and> snd (edit_message id 0 (mk_user 1) 7 ''x'' empty_store) \<noteq> []"
  by (simp add: edit_message_def store_defs)

text \<open>
  Claim C7 (pin state across delete and restore). For an existing message, a delete by
  its author or by user 1 leaves it deleted and unpinned with \<open>wasPinned\<close> holding the
  pin it had; a restore by the author right after gives that pin back and clears
  \<open>wasPinned\<close>. So a pinned message comes back pinned and an unpinned one unpinned.
\<close>

theorem delete_then_restore_pin_state:
  assumes found: "findUnique_message s messageId = Some msg"
    and may_delete: "m_userId msg = user_id deleter \<or> user_id deleter = 1"
    and author: "m_userId msg = user_id restorer"
  shows "map_option (\<lambda>m. (isDeleted m, isPinned m, wasPinned m))
           (findUnique_message (fst (handleDeleteMessage deleter messageId s)) messageId)
         = Some (True, False, isPinned msg)
       \<and> map_option (\<lambda>m. (isDeleted m, isPinned m, wasPinned m))
           (findUnique_message
              (fst (restore_message restorer messageId
                      (fst (handleDeleteMessage deleter messageId s)))) messageId)
         = Some (False, isPinned msg, False)"
proof -
  let ?del = "\<lambda>m. m\<lparr>isDeleted := True, isPinned := False, wasPinned := isPinned msg\<rparr>"
  obtain s1 where s1: "update_message messageId ?del s = Inr (?del msg, s1)"
    "findUnique_message s1 messageId = Some (?del msg)"
    using update_message_found[OF found, of ?del] by auto
  have d: "fst (handleDeleteMessage deleter messageId s) = s1"
    using found may_delete s1 by (auto simp add: handleDeleteMessage_def)
  let ?res = "\<lambda>m. m\<lparr>isDeleted := False, isPinned := wasPinned (?del msg), wasPinned := False\<rparr>"
  obtain s2 where s2: "update_message messageId ?res s1 = Inr (?res (?del msg), s2)"
    "findUnique_message s2 messageId = Some (?res (?del msg))"
    using update_message_found[OF s1(2), of ?res] by auto
  have r: "fst (restore_message restorer messageId s1) = s2"
    using s1(2) author s2 by (simp add: restore_message_def Let_def)
  show ?thesis using d r s1(2) s2(2) by simp
qed

theorem delete_then_restore_pin_state_witness:
  "map_option (\<lambda>m. (isDeleted m, isPinned m, wasPinned m))
     (findUnique_message (fst (handleDeleteMessage (mk_user 1) 1 pinned_store)) 1)
   = Some (True, False, True)
   \<and> map_option (\<lambda>m. (isDeleted m, isPinned m, wasPinned m))
       (findUnique_message
          (fst (restore_message (mk_user 1) 1
                  (fst (handleDeleteMessage (mk_user 1) 1 pinned_store)))) 1)
     = Some (False, True, False)
   \<and> map_option (\<lambda>m. (isDeleted m, isPinned m, wasPinned m))
       (findUnique_message (fst (handleDeleteMessage (mk_user 1) 2 two_messages)) 2)
     = Some (True, False, False)
   \<and> map_option (\<lambda>m. (isDeleted m, isPinned m, wasPinned m))
       (findUnique_message
          (fst (restore_message (mk_user 1) 2
                  (fst (handleDeleteMessage (mk_user 1) 2 two_messages)))) 2)
     = Some (False, False, False)"
proof -
  have f1: "findUnique_message pinned_store 1 = Some ((mk_message 1 1 None)\<lparr>isPinned := True\<rparr>)"
    by (simp add: pinned_store_def store_defs)
  have a1: "m_userId ((mk_message 1 1 None)\<lparr>isPinned := True\<rparr>) = user_id (mk_user 1)"
    by (simp add: store_defs)
  have f2: "findUnique_message two_messages 2 = Some (mk_message 2 1 None)"
    by (simp add: two_messages_def store_defs)
  have a2: "m_userId (mk_message 2 1 None) = user_id (mk_user 1)"
    by (simp add: store_defs)
  from delete_then_restore_pin_state[OF f1 disjI1[OF a1] a1]
       delete_then_restore_pin_state[OF f2 disjI1[OF a2] a2]
  show ?thesis by (simp add: mk_message_def)
qed

text \<open>Resetting the mentions of one message, as the \<^verbatim>\<open>updateMany\<close> of the edit does.\<close>

lemma reset_ids:
  "map mn_id (map (\<lambda>mn. if mn_messageId mn = i
                         then mn\<lparr>isRead := False, readAt := None\<rparr> else mn) xs)
   = map mn_id xs"
  by (induction xs) simp_all

lemma reset_unread:
  "list_all (\<lambda>mn. mn_messageId mn = i \<longrightarrow> \<not> isRead mn \<and> readAt mn = None)
     (map (\<lambda>mn. if mn_messageId mn = i
                 then mn\<lparr>isRead := False, readAt := None\<rparr> else mn) xs)"
  by (induction xs) simp_all

lemma reset_others:
  "filter (\<lambda>mn. mn_messageId mn \<noteq> i)
     (map (\<lambda>mn. if mn_messageId mn = i
                 then mn\<lparr>isRead := False, readAt := None\<rparr> else mn) xs)
   = filter (\<lambda>mn. mn_messageId mn \<noteq> i) xs"
  by (induction xs) simp_all

text \<open>
  Claim C6 (a successful edit resets every mention of the message). When the author
  edits an existing message inside the window, one step of the handler yields a store in
  which the message carries the sanitized new content, the history has one more entry
  holding the content before the edit (the empty string for none), every mention row of
  that message is still there and is unread with no read time, whatever it was before,
  and the mentions of other messages are as they were; the updated message is broadcast.
\<close>

theorem edit_resets_mentions:
  assumes found: "findUnique_message s messageId = Some msg"
    and author: "m_userId msg = user_id u"
    and window: "now - m_createdAt msg \<le> 5 * 60 * 1000"
  shows "snd (edit_message sanitize now u messageId newContent s)
           = [(General, MessageUpdated (msg\<lparr>m_content := Some (sanitize newContent)\<rparr>))]
       \<and> findUnique_message (fst (edit_message sanitize now u messageId newContent s)) messageId
           = Some (msg\<lparr>m_content := Some (sanitize newContent)\<rparr>)
       \<and> history (fst (edit_message sanitize now u messageId newContent s))
           = history s @ [\<lparr>h_messageId = messageId,
                            oldContent = (case m_content msg of None \<Rightarrow> [] | Some c \<Rightarrow> c),
                            editedAt = now\<rparr>]
       \<and> map mn_id (mentions (fst (edit_message sanitize now u messageId newContent s)))
           = map mn_id (mentions s)
       \<and> list_all (\<lambda>mn. mn_messageId mn = messageId \<longrightarrow> \<not> isRead mn \<and> readAt mn = None)
           (mentions (fst (edit_message sanitize now u messageId newContent s)))
       \<and> filter (\<lambda>mn. mn_messageId mn \<noteq> messageId)
           (mentions (fst (edit_message sanitize now u messageId newContent s)))
           = filter (\<lambda>mn. mn_messageId mn \<noteq> messageId) (mentions s)"
proof -
  let ?upd = "\<lambda>m. m\<lparr>m_content := Some (sanitize newContent)\<rparr>"
  let ?reset = "\<lambda>mn. if mn_messageId mn = messageId
                      then mn\<lparr>isRead := False, readAt := None\<rparr> else mn"
  let ?s2 = "s\<lparr>history := history s @
                [\<lparr>h_messageId = messageId,
                  oldContent = (case m_content msg of None \<Rightarrow> [] | Some c \<Rightarrow> c),
                  editedAt = now\<rparr>],
              mentions := map ?reset (mentions s)\<rparr>"
  have mid: "m_id msg = messageId" using found by (rule findUnique_message_id)
  have f2: "findUnique_message ?s2 messageId = Some msg"
    using found by (simp add: findUnique_message_def)
  obtain s3 where s3: "update_message messageId ?upd ?s2 = Inr (?upd msg, s3)"
    "findUnique_message s3 messageId = Some (?upd msg)"
    "s3 = ?s2\<lparr>messages := map (\<lambda>r. if m_id r = messageId then ?upd r else r) (messages ?s2)\<rparr>"
    using update_message_found[OF f2, of ?upd] by auto
  have res: "edit_message sanitize now u messageId newContent s
               = (s3, [(General, MessageUpdated (?upd msg))])"
    using found author window mid s3(1) by (simp add: edit_message_def Let_def)
  have h: "history s3 = history ?s2" and ms: "mentions s3 = map ?reset (mentions s)"
    using s3(3) by simp_all
  show ?thesis unfolding res
    using s3(2) h reset_ids[of messageId "mentions s"]
      reset_unread[of messageId "mentions s"] reset_others[of messageId "mentions s"]
    by (simp add: ms)
qed

theorem edit_resets_mentions_witness:
  "snd (edit_message id 2000 (mk_user 1) 1 ''new'' acked_store)
     = [(General, MessageUpdated ((mk_message 1 1 None)\<lparr>m_content := Some ''new''\<rparr>))]
   \<and> history (fst (edit_message id 2000 (mk_user 1) 1 ''new'' acked_store))
     = [\<lparr>h_messageId = 1, oldContent = ''hi'', editedAt = 2000\<rparr>]
   \<and> mentions (fst (edit_message id 2000 (mk_user 1) 1 ''new'' acked_store))
     = [\<lparr>mn_id = 1, mn_userId = 2, mn_messageId = 1, isRead = False, readAt = None\<rparr>]
   \<and> list_all (\<lambda>mn. \<not> isRead mn \<and> readAt mn = None)
       (mentions (fst (edit_message id 2000 (mk_user 1) 1 ''new'' acked_store)))"
proof -
  have f: "findUnique_message acked_store 1 = Some (mk_message 1 1 None)"
    by (simp add: acked_store_def store_defs)
  have a: "m_userId (mk_message 1 1 None) = user_id (mk_user 1)"
    and w: "2000 - m_createdAt (mk_message 1 1 None) \<le> 5 * 60 * 1000"
    by (simp_all add: store_defs)
  have e: "mentions (fst (edit_message id 2000 (mk_user 1) 1 ''new'' acked_store))
     = [\<lparr>mn_id = 1, mn_userId = 2, mn_messageId = 1, isRead = False, readAt = None\<rparr>]"
    by (simp add: edit_message_def acked_store_def store_defs Let_def)
  from edit_resets_mentions[OF f a w, of id "''new''"] e
  show ?thesis by (simp add: acked_store_def store_defs)
qed

text \<open>
  Claim C9 (who may edit, and when). For an existing message, an edit by anyone but its
  author, or by the author more than five minutes (300000 ms) after creation, returns
  the store as it was and emits one event only, an error to the initiating socket. And
  whenever an edit changes the store or broadcasts anything, the target exists, the
  caller is its author and no more than five minutes have passed since its creation.
\<close>

theorem edit_message_guard:
  "(\<forall>msg. findUnique_message s messageId = Some msg
        \<and> (m_userId msg \<noteq> user_id u \<or> now - m_createdAt msg > 5 * 60 * 1000)
      \<longrightarrow> edit_message sanitize now u messageId newContent s
            = (s, [(Initiator, ErrorEv (if m_userId msg \<noteq> user_id u then ''Unauthorized''
                                        else ''Edit time limit exceeded (5 mins)''))]))
   \<and> (fst (edit_message sanitize now u messageId newContent s) \<noteq> s
        \<or> (\<exists>ev. (General, ev) \<in> set (snd (edit_message sanitize now u messageId newContent s)))
      \<longrightarrow> (\<exists>msg. findUnique_message s messageId = Some msg \<and> m_userId msg = user_id u
                  \<and> now - m_createdAt msg \<le> 5 * 60 * 1000))"
proof (intro conjI allI impI)
  fix msg
  assume "findUnique_message s messageId = Some msg
        \<and> (m_userId msg \<noteq> user_id u \<or> now - m_createdAt msg > 5 * 60 * 1000)"
  then show "edit_message sanitize now u messageId newContent s
            = (s, [(Initiator, ErrorEv (if m_userId msg \<noteq> user_id u then ''Unauthorized''
                                        else ''Edit time limit exceeded (5 mins)''))])"
    by (auto simp add: edit_message_def)
next
  assume a: "fst (edit_message sanitize now u messageId newContent s) \<noteq> s
        \<or> (\<exists>ev. (General, ev) \<in> set (snd (edit_message sanitize now u messageId newContent s)))"
  show "\<exists>msg. findUnique_message s messageId = Some msg \<and> m_userId msg = user_id u
                  \<and> now - m_createdAt msg \<le> 5 * 60 * 1000"
  proof (cases "findUnique_message s messageId")
    case None
    with a show ?thesis by (simp add: edit_message_def)
  next
    case (Some msg)
    with a show ?thesis
      by (cases "m_userId msg = user_id u"; cases "now - m_createdAt msg > 5 * 60 * 1000")
         (auto simp add: edit_message_def)
  qed
qed

theorem edit_message_guard_witness:
  "edit_message id 400000 (mk_user 2) 1 ''x'' two_messages
     = (two_messages, [(Initiator, ErrorEv ''Unauthorized'')])
   \<and> edit_message id 400000 (mk_user 1) 1 ''x'' two_messages
     = (two_messages, [(Initiator, ErrorEv ''Edit time limit exceeded (5 mins)'')])
   \<and> fst (edit_message id 2000 (mk_user 1) 1 ''x'' two_messages) \<noteq> two_messages
   \<and> findUnique_message two_messages 1 = Some (mk_message 1 1 None)
   \<and> m_userId (mk_message 1 1 None) = user_id (mk_user 1)
   \<and> 2000 - m_createdAt (mk_message 1 1 None) \<le> 5 * 60 * 1000"
proof -
  have f: "findUnique_message two_messages 1 = Some (mk_message 1 1 None)"
    by (simp add: two_messages_def store_defs)
  have a1: "m_userId (mk_message 1 1 None) \<noteq> user_id (mk_user 2)"
    and a2: "400000 - m_createdAt (mk_message 1 1 None) > 5 * 60 * 1000"
    and a3: "m_userId (mk_message 1 1 None) = user_id (mk_user 1)"
    by (simp_all add: store_defs)
  have c: "fst (edit_message id 2000 (mk_user 1) 1 ''x'' two_messages) \<noteq> two_messages"
    by (simp add: edit_message_def two_messages_def store_defs Let_def)
  from edit_message_guard[of two_messages 1 "mk_user 2" 400000 id "''x''"] f a1
  have r1: "edit_message id 400000 (mk_user 2) 1 ''x'' two_messages
     = (two_messages, [(Initiator, ErrorEv ''Unauthorized'')])" by simp
  from edit_message_guard[of two_messages 1 "mk_user 1" 400000 id "''x''"] f a2 a3
  have r2: "edit_message id 400000 (mk_user 1) 1 ''x'' two_messages
     = (two_messages, [(Initiator, ErrorEv ''Edit time limit exceeded (5 mins)'')])" by simp
  from edit_message_guard[of two_messages 1 "mk_user 1" 2000 id "''x''"] c f
  have r3: "m_userId (mk_message 1 1 None) = user_id (mk_user 1)
                  \<and> 2000 - m_createdAt (mk_message 1 1 None) \<le> 5 * 60 * 1000" by simp
  show ?thesis using r1 r2 r3 c f by simp
qed

section \<open>Reaction toggler\<close>

lemma findUnique_reaction_None:
  "findUnique_reaction s u m e = None \<longleftrightarrow> \<not> has_reaction s u m e"
  by (auto simp: findUnique_reaction_def has_reaction_def reaction_keys_def find_None_iff)

lemma findUnique_reaction_Some:
  "findUnique_reaction s u m e = Some ex \<Longrightarrow>
     ex \<in> set (reactions s) \<and> r_userId ex = u \<and> r_messageId ex = m \<and> r_emoji ex = e"
  by (auto simp: findUnique_reaction_def find_Some_iff)

lemma delete_reaction_absent:
  assumes uniq: "distinct (reaction_keys s)"
    and ex: "findUnique_reaction s u m e = Some ex"
  shows "\<not> has_reaction (s\<lparr>reactions := filter (\<lambda>r. r_id r \<noteq> r_id ex) (reactions s)\<rparr>) u m e"
proof
  assume "has_reaction (s\<lparr>reactions := filter (\<lambda>r. r_id r \<noteq> r_id ex) (reactions s)\<rparr>) u m e"
  then obtain r where r: "r \<in> set (reactions s)" "r_id r \<noteq> r_id ex"
      "(r_userId r, r_messageId r, r_emoji r) = (u, m, e)"
    by (auto simp: has_reaction_def reaction_keys_def)
  from findUnique_reaction_Some[OF ex]
  have e: "ex \<in> set (reactions s)" "(r_userId ex, r_messageId ex, r_emoji ex) = (u, m, e)"
    by simp_all
  from uniq have "inj_on (\<lambda>r. (r_userId r, r_messageId r, r_emoji r)) (set (reactions s))"
    by (simp add: reaction_keys_def distinct_map)
  with r(1,3) e have "r = ex" by (auto dest: inj_onD)
  with r(2) show False by simp
qed

lemma toggle_reaction_frame:
  "users (fst (toggle_reaction u m e s)) = users s
   \<and> messages (fst (toggle_reaction u m e s)) = messages s"
  by (auto simp: toggle_reaction_def create_reaction_def Let_def split: option.splits)

lemma toggle_reaction_distinct:
  assumes "distinct (reaction_keys s)"
  shows "distinct (reaction_keys (fst (toggle_reaction u m e s)))"
proof (cases "findUnique_reaction s (user_id u) m e")
  case None
  then have "(user_id u, m, e) \<notin> set (reaction_keys s)"
    by (simp add: findUnique_reaction_None has_reaction_def)
  with assms None show ?thesis
    by (simp add: toggle_reaction_def create_reaction_def Let_def reaction_keys_def)
next
  case (Some ex)
  with assms show ?thesis
    by (simp add: toggle_reaction_def reaction_keys_def distinct_map_filter)
qed

lemma toggle_reaction_fk:
  assumes "reactions_fk s"
  shows "reactions_fk (fst (toggle_reaction u m e s))"
  using assms
  by (auto simp: toggle_reaction_def create_reaction_def Let_def reactions_fk_def list_all_iff
        findUnique_user_def findUnique_message_def split: option.splits)

lemma toggle_reaction_flips:
  assumes uniq: "distinct (reaction_keys s)" and fk: "reactions_fk s"
  shows "has_reaction (fst (toggle_reaction u m e s)) (user_id u) m e
         = (if has_reaction s (user_id u) m e then False
            else findUnique_user s (user_id u) \<noteq> None \<and> findUnique_message s m \<noteq> None)"
proof (cases "findUnique_reaction s (user_id u) m e")
  case None
  then have "\<not> has_reaction s (user_id u) m e" by (simp add: findUnique_reaction_None)
  with None show ?thesis
    by (auto simp: toggle_reaction_def create_reaction_def Let_def has_reaction_def reaction_keys_def)
next
  case (Some ex)
  then have "has_reaction s (user_id u) m e"
    using findUnique_reaction_None[of s "user_id u" m e] by simp
  with Some delete_reaction_absent[OF uniq Some] show ?thesis
    by (simp add: toggle_reaction_def)
qed

lemma has_reaction_fk:
  assumes "reactions_fk s" "has_reaction s u m e"
  shows "findUnique_user s u \<noteq> None \<and> findUnique_message s m \<noteq> None"
  using assms by (auto simp: reactions_fk_def has_reaction_def reaction_keys_def list_all_iff)

lemma run_toggles_distinct:
  "distinct (reaction_keys s) \<Longrightarrow> distinct (reaction_keys (run_toggles ts s))"
  by (induction ts s rule: run_toggles.induct) (simp_all add: toggle_reaction_distinct)

text \<open>
  Claim C5 (toggling a reaction twice; no duplicate rows). In a store that satisfies the
  unique index on (user, message, emoji) and the foreign keys of its reaction rows, two
  toggles in a row by one user for one message and emoji leave the triple present exactly
  when it was present before; and after any sequence of toggles, by any users for any
  messages and emojis, no two reaction rows share a triple.
\<close>

theorem toggle_reaction_twice:
  assumes uniq: "distinct (reaction_keys s)" and fk: "reactions_fk s"
  shows "has_reaction (fst (toggle_reaction u m e (fst (toggle_reaction u m e s)))) (user_id u) m e
           = has_reaction s (user_id u) m e
       \<and> distinct (reaction_keys (run_toggles ts s))"
proof -
  let ?s1 = "fst (toggle_reaction u m e s)"
  have u1: "distinct (reaction_keys ?s1)" using uniq by (rule toggle_reaction_distinct)
  have f1: "reactions_fk ?s1" using fk by (rule toggle_reaction_fk)
  have fr: "findUnique_user ?s1 = findUnique_user s" "findUnique_message ?s1 = findUnique_message s"
    using toggle_reaction_frame[of u m e s] by (auto simp: findUnique_user_def findUnique_message_def fun_eq_iff)
  have "has_reaction (fst (toggle_reaction u m e ?s1)) (user_id u) m e = has_reaction s (user_id u) m e"
    unfolding toggle_reaction_flips[OF u1 f1] toggle_reaction_flips[OF uniq fk] fr
    using has_reaction_fk[OF fk, of "user_id u" m e] by auto
  then show ?thesis using run_toggles_distinct[OF uniq] by simp
qed

theorem toggle_reaction_twice_witness:
  "has_reaction (fst (toggle_reaction (mk_user 1) 2 ''+1''
                    (fst (toggle_reaction (mk_user 1) 2 ''+1'' reacted_store)))) 1 2 ''+1''
   \<and> has_reaction reacted_store 1 2 ''+1''
   \<and> distinct (reaction_keys (run_toggles [(mk_user 1, 2, ''+1''), (mk_user 1, 1, ''+1''),
                                            (mk_user 1, 2, ''+1''), (mk_user 1, 2, ''+1'')] reacted_store))"
proof -
  have u: "distinct (reaction_keys reacted_store)"
    by (simp add: reacted_store_def two_messages_def reaction_keys_def store_defs)
  have f: "reactions_fk reacted_store"
    by (simp add: reacted_store_def two_messages_def reactions_fk_def store_defs)
  have h: "has_reaction reacted_store 1 2 ''+1''"
    by (simp add: reacted_store_def two_messages_def has_reaction_def reaction_keys_def store_defs)
  have i: "user_id (mk_user 1) = 1" by (simp add: mk_user_def)
  show ?thesis
    using toggle_reaction_twice[OF u f, of "mk_user 1" 2 "''+1''"
        "[(mk_user 1, 2, ''+1''), (mk_user 1, 1, ''+1''), (mk_user 1, 2, ''+1''), (mk_user 1, 2, ''+1'')]"] h
    unfolding i by simp
qed

section \<open>Read-receipt aggregator\<close>

lemma set_add_keys:
  "map fst (map (\<lambda>(k, us). if k = m then (k, if u \<in> set us then us else us @ [u]) else (k, us)) buf)
   = map fst buf"
  by (induction buf) auto

lemma set_add_distinct:
  "list_all (\<lambda>(k, us). distinct us) buf \<Longrightarrow>
   list_all (\<lambda>(k, us). distinct us)
     (map (\<lambda>(k, us). if k = m then (k, if u \<in> set us then us else us @ [u]) else (k, us)) buf)"
  by (induction buf) (auto split: if_splits)

lemma set_add_mono:
  "buffered buf m' u' \<Longrightarrow>
   buffered (map (\<lambda>(k, us). if k = m then (k, if u \<in> set us then us else us @ [u]) else (k, us)) buf) m' u'"
  unfolding buffered_def by (induction buf) (auto split: if_splits)

lemma set_add_member:
  "m \<in> set (map fst buf) \<Longrightarrow>
   buffered (map (\<lambda>(k, us). if k = m then (k, if u \<in> set us then us else us @ [u]) else (k, us)) buf) m u"
  unfolding buffered_def by (induction buf) auto

lemma buffered_append: "buffered buf m' u' \<Longrightarrow> buffered (buf @ extra) m' u'"
  by (simp add: buffered_def)

lemma buffer_add_ok:
  assumes "buffer_ok buf"
  shows "buffer_ok (buffer_add m u buf)"
proof (cases "m \<in> set (map fst buf)")
  case True
  with assms show ?thesis
    unfolding buffer_ok_def buffer_add_def Let_def
    by (simp only: set_add_keys if_True) (simp add: set_add_distinct)
next
  case False
  have "list_all (\<lambda>(k, us). distinct us) (buf @ [(m, [])])"
    using assms by (simp add: buffer_ok_def)
  from set_add_distinct[OF this, of m u] False assms show ?thesis
    unfolding buffer_ok_def buffer_add_def Let_def
    by (simp only: set_add_keys if_False) simp
qed

lemma buffer_add_buffered: "buffered (buffer_add m u buf) m u"
proof (cases "m \<in> set (map fst buf)")
  case True
  then show ?thesis unfolding buffer_add_def Let_def
    by (simp only: if_True) (rule set_add_member)
next
  case False
  have "m \<in> set (map fst (buf @ [(m, [])]))" by simp
  from set_add_member[OF this, of u] False show ?thesis
    unfolding buffer_add_def Let_def by (simp only: if_False)
qed

lemma buffer_add_mono:
  assumes "buffered buf m' u'"
  shows "buffered (buffer_add m u buf) m' u'"
proof (cases "m \<in> set (map fst buf)")
  case True
  then show ?thesis unfolding buffer_add_def Let_def
    by (simp only: if_True) (rule set_add_mono[OF assms])
next
  case False
  from set_add_mono[OF buffered_append[OF assms, of "[(m, [])]"], of m u] False show ?thesis
    unfolding buffer_add_def Let_def by (simp only: if_False)
qed

lemma batch_of_flush:
  "batch_userIds (map (\<lambda>(messageId, userIds). (General, ReadUpdateBatch messageId userIds)) buf) m
   = concat (map snd (filter (\<lambda>p. fst p = m) buf))"
  by (induction buf) auto

lemma filter_absent_key: "m \<notin> set (map fst buf) \<Longrightarrow> filter (\<lambda>p. fst p = m) buf = []"
  by (induction buf) auto

lemma buffer_ok_distinct_batch:
  "buffer_ok buf \<Longrightarrow> distinct (concat (map snd (filter (\<lambda>p. fst p = m) buf)))"
proof (induction buf)
  case Nil
  then show ?case by simp
next
  case (Cons p buf)
  then have ok: "buffer_ok buf" and np: "fst p \<notin> set (map fst buf)" and dp: "distinct (snd p)"
    by (auto simp: buffer_ok_def)
  show ?case
  proof (cases "fst p = m")
    case True
    with np have "filter (\<lambda>p. fst p = m) buf = []" by (simp add: filter_absent_key)
    with True dp show ?thesis by simp
  next
    case False
    with Cons.IH[OF ok] show ?thesis by simp
  qed
qed

lemma buffered_in_batch:
  "buffered buf m u \<Longrightarrow> u \<in> set (concat (map snd (filter (\<lambda>p. fst p = m) buf)))"
  unfolding buffered_def by (induction buf) auto

lemma flush_tick_events:
  "snd (flush_tick s) = map (\<lambda>(messageId, userIds). (General, ReadUpdateBatch messageId userIds)) (readReceiptBuffer s)"
  by (simp add: flush_tick_def)


lemma upsert_messageRead_cases:
  "upsert_messageRead uid m s =
     (if (uid, m) \<in> set (read_keys s) then Inr s
      else if findUnique_user s uid = None \<or> findUnique_message s m = None
      then Inl ForeignKeyViolation
      else Inr (s\<lparr>reads := reads s @ [\<lparr>rd_userId = uid, rd_messageId = m\<rparr>]\<rparr>))"
proof -
  have "(find (\<lambda>r. rd_userId r = uid \<and> rd_messageId r = m) (reads s) \<noteq> None)
        = ((uid, m) \<in> set (read_keys s))"
    by (auto simp: read_keys_def find_None_iff)
  then show ?thesis by (simp add: upsert_messageRead_def)
qed

lemma mark_read_frame:
  "users (fst (mark_read u m s)) = users s \<and> messages (fst (mark_read u m s)) = messages s"
  by (simp add: mark_read_def upsert_messageRead_cases)

lemma mark_read_exists:
  "findUnique_user (fst (mark_read u m s)) = findUnique_user s"
  "findUnique_message (fst (mark_read u m s)) = findUnique_message s"
  using mark_read_frame[of u m s] by (simp_all add: findUnique_user_def findUnique_message_def fun_eq_iff)

lemma mark_read_distinct:
  "distinct (read_keys s) \<Longrightarrow> distinct (read_keys (fst (mark_read u m s)))"
  by (simp add: mark_read_def upsert_messageRead_cases) (simp add: read_keys_def)

lemma mark_read_buffer_ok:
  "buffer_ok (readReceiptBuffer s) \<Longrightarrow> buffer_ok (readReceiptBuffer (fst (mark_read u m s)))"
  by (simp add: mark_read_def upsert_messageRead_cases buffer_add_ok)

lemma mark_read_mono:
  "k \<in> set (read_keys s) \<Longrightarrow> k \<in> set (read_keys (fst (mark_read u m s)))"
  "buffered (readReceiptBuffer s) m' u' \<Longrightarrow> buffered (readReceiptBuffer (fst (mark_read u m s))) m' u'"
  by (simp_all add: mark_read_def upsert_messageRead_cases buffer_add_mono) (simp add: read_keys_def)

lemma mark_read_hit:
  assumes "findUnique_user s (user_id u) \<noteq> None" "findUnique_message s m \<noteq> None"
  shows "(user_id u, m) \<in> set (read_keys (fst (mark_read u m s)))
       \<and> buffered (readReceiptBuffer (fst (mark_read u m s))) m (user_id u)"
proof (cases "(user_id u, m) \<in> set (read_keys s)")
  case True
  then show ?thesis
    by (simp add: mark_read_def upsert_messageRead_cases buffer_add_buffered) (simp add: read_keys_def)
next
  case False
  with assms show ?thesis
    by (simp add: mark_read_def upsert_messageRead_cases buffer_add_buffered read_keys_def)
qed

lemma run_mark_reads_inv:
  "distinct (read_keys s) \<Longrightarrow> buffer_ok (readReceiptBuffer s) \<Longrightarrow>
   distinct (read_keys (run_mark_reads cs s)) \<and> buffer_ok (readReceiptBuffer (run_mark_reads cs s))"
  by (induction cs s rule: run_mark_reads.induct) (simp_all add: mark_read_distinct mark_read_buffer_ok)

lemma run_mark_reads_mono:
  "k \<in> set (read_keys s) \<Longrightarrow> buffered (readReceiptBuffer s) m' u' \<Longrightarrow>
   k \<in> set (read_keys (run_mark_reads cs s)) \<and> buffered (readReceiptBuffer (run_mark_reads cs s)) m' u'"
  by (induction cs s rule: run_mark_reads.induct) (simp_all add: mark_read_mono)

lemma run_mark_reads_hit:
  assumes "(u, m) \<in> set cs" "findUnique_user s (user_id u) \<noteq> None" "findUnique_message s m \<noteq> None"
  shows "(user_id u, m) \<in> set (read_keys (run_mark_reads cs s))
       \<and> buffered (readReceiptBuffer (run_mark_reads cs s)) m (user_id u)"
  using assms
proof (induction cs s rule: run_mark_reads.induct)
  case (1 s)
  then show ?case by simp
next
  case (2 u' m' cs s)
  show ?case
  proof (cases "(u, m) = (u', m')")
    case True
    with mark_read_hit[OF "2.prems"(2,3)]
    have "(user_id u, m) \<in> set (read_keys (fst (mark_read u' m' s)))"
      and "buffered (readReceiptBuffer (fst (mark_read u' m' s))) m (user_id u)" by simp_all
    from run_mark_reads_mono[OF this, of cs] show ?thesis by simp
  next
    case False
    with "2.prems"(1) have "(u, m) \<in> set cs" by auto
    from "2.IH"[OF this] "2.prems"(2,3) show ?thesis by (simp add: mark_read_exists)
  qed
qed

lemma one_row_per_key:
  "distinct (map f xs) \<Longrightarrow> k \<in> set (map f xs) \<Longrightarrow> length (filter (\<lambda>x. f x = k) xs) = 1"
proof (induction xs)
  case Nil
  then show ?case by simp
next
  case (Cons x xs)
  show ?case
  proof (cases "f x = k")
    case True
    with Cons.prems have "k \<notin> set (map f xs)" by simp
    then have "filter (\<lambda>x. f x = k) xs = []" by (auto simp: filter_empty_conv)
    with True show ?thesis by simp
  next
    case False
    with Cons show ?thesis by auto
  qed
qed

lemma distinct_count_one: "distinct xs \<Longrightarrow> x \<in> set xs \<Longrightarrow> count_list xs x = 1"
  by (induction xs) (auto simp: count_list_0_iff)

text \<open>
  Claim C8 (read receipts). Start from a store that satisfies the unique index on
  (user, message) of the read table and whose buffer is a map of sets. After any sequence
  of \<open>mark_read\<close> calls in which an existing user marks an existing message at least
  once, the read table holds exactly one row for that pair; a flush then names that user
  exactly once among the readers of that message, and no user twice for any message; and
  a flush of an empty buffer changes nothing and emits nothing.
\<close>

theorem mark_read_once:
  assumes uniq: "distinct (read_keys s)" and buf: "buffer_ok (readReceiptBuffer s)"
    and usr: "findUnique_user s (user_id u) \<noteq> None" and msg: "findUnique_message s m \<noteq> None"
    and call: "(u, m) \<in> set calls"
  shows "length (filter (\<lambda>r. (rd_userId r, rd_messageId r) = (user_id u, m))
                   (reads (run_mark_reads calls s))) = 1
       \<and> count_list (batch_userIds (snd (flush_tick (run_mark_reads calls s))) m) (user_id u) = 1
       \<and> (\<forall>k. distinct (batch_userIds (snd (flush_tick (run_mark_reads calls s))) k))
       \<and> (\<forall>s0. readReceiptBuffer s0 = [] \<longrightarrow> flush_tick s0 = (s0, []))"
proof -
  let ?s = "run_mark_reads calls s"
  from run_mark_reads_inv[OF uniq buf, of calls]
  have d: "distinct (read_keys ?s)" and ok: "buffer_ok (readReceiptBuffer ?s)" by simp_all
  from run_mark_reads_hit[OF call usr msg]
  have k: "(user_id u, m) \<in> set (read_keys ?s)" and b: "buffered (readReceiptBuffer ?s) m (user_id u)"
    by simp_all
  have 1: "length (filter (\<lambda>r. (rd_userId r, rd_messageId r) = (user_id u, m)) (reads ?s)) = 1"
    using one_row_per_key[of "\<lambda>r. (rd_userId r, rd_messageId r)" "reads ?s" "(user_id u, m)"] d k
    by (simp add: read_keys_def)
  have 3: "distinct (batch_userIds (snd (flush_tick ?s)) k)" for k
    unfolding flush_tick_events batch_of_flush using ok by (rule buffer_ok_distinct_batch)
  have "user_id u \<in> set (batch_userIds (snd (flush_tick ?s)) m)"
    unfolding flush_tick_events batch_of_flush using b by (rule buffered_in_batch)
  with 3[of m] have 2: "count_list (batch_userIds (snd (flush_tick ?s)) m) (user_id u) = 1"
    by (rule distinct_count_one)
  have 4: "flush_tick s0 = (s0, [])" if "readReceiptBuffer s0 = []" for s0
    using that by (simp add: flush_tick_def)
  from 1 2 3 4 show ?thesis by blast
qed

theorem mark_read_once_witness:
  "length (filter (\<lambda>r. (rd_userId r, rd_messageId r) = (1, 2))
            (reads (run_mark_reads [(mk_user 1, 2), (mk_user 1, 1), (mk_user 1, 2), (mk_user 1, 2)]
                      two_messages))) = 1
   \<and> count_list (batch_userIds (snd (flush_tick
        (run_mark_reads [(mk_user 1, 2), (mk_user 1, 1), (mk_user 1, 2), (mk_user 1, 2)]
           two_messages))) 2) 1 = 1
   \<and> distinct (batch_userIds (snd (flush_tick
        (run_mark_reads [(mk_user 1, 2), (mk_user 1, 1), (mk_user 1, 2), (mk_user 1, 2)]
           two_messages))) 1)
   \<and> flush_tick two_messages = (two_messages, [])"
proof -
  have h: "distinct (read_keys two_messages)" "buffer_ok (readReceiptBuffer two_messages)"
    "findUnique_user two_messages (user_id (mk_user 1)) \<noteq> None"
    "findUnique_message two_messages 2 \<noteq> None"
    "(mk_user 1, 2) \<in> set [(mk_user 1, 2), (mk_user 1, 1), (mk_user 1, 2), (mk_user 1, 2::int)]"
    "readReceiptBuffer two_messages = []"
    by (simp_all add: two_messages_def read_keys_def buffer_ok_def store_defs)
  have i: "user_id (mk_user 1) = 1" by (simp add: mk_user_def)
  from mark_read_once[OF h(1-5)] h(6) show ?thesis unfolding i by blast
qed

section \<open>Thread resolver\<close>

text \<open>A message that is its own parent keeps the upward loop running for ever.\<close>

lemma walk_up_self_parent:
  assumes par: "parentId m = Some p" and nz: "p \<noteq> 0"
    and self: "findUnique_message s p = Some m"
  shows "walk_up s m = None"
proof (cases "walk_up s m")
  case None
  then show ?thesis .
next
  case (Some y)
  have "\<not> (s = s \<and> m = m)"
  proof (rule walk_up.raw_induct[where P = "\<lambda>s' m' y'. \<not> (s' = s \<and> m' = m)", OF _ Some])
    fix walk :: "store \<Rightarrow> message \<Rightarrow> message option"
      and s' :: store and m' :: message and y' :: message
    assume IH: "\<And>a b c. walk a b = Some c \<Longrightarrow> \<not> (a = s \<and> b = m)"
      and step: "(case parentId m' of None \<Rightarrow> Some m'
        | Some q \<Rightarrow>
            if q = 0 then Some m'
            else case findUnique_message s' q of None \<Rightarrow> Some m'
                 | Some parent \<Rightarrow> walk s' parent) = Some y'"
    show "\<not> (s' = s \<and> m' = m)"
    proof
      assume a: "s' = s \<and> m' = m"
      with step par nz self have "walk s m = Some y'" by simp
      from IH[OF this] show False by simp
    qed
  qed
  then show ?thesis by simp
qed

lemma findUnique_message_in:
  "findUnique_message s i = Some m \<Longrightarrow> m \<in> set (messages s) \<and> m_id m = i"
  by (auto simp: findUnique_message_def find_Some_iff)

lemma fewer_smaller_ids:
  assumes "x \<in> set xs" "m_id x < b" "a \<le> m_id x"
  shows "length (filter (\<lambda>y. m_id y < a) xs) < length (filter (\<lambda>y. m_id y < b) xs)"
proof -
  have "filter (\<lambda>y. m_id y < a) xs = filter (\<lambda>y. m_id y < a) (filter (\<lambda>y. m_id y < b) xs)"
    using assms by (auto intro: filter_cong)
  moreover have "x \<in> set (filter (\<lambda>y. m_id y < b) xs)" "\<not> m_id x < a" using assms by auto
  ultimately show ?thesis by (metis length_filter_less)
qed

lemma walk_up_returns:
  assumes ord: "\<forall>m\<in>set (messages s). \<forall>p. parentId m = Some p \<longrightarrow> p < m_id m"
  shows "m \<in> set (messages s) \<Longrightarrow> \<exists>r. walk_up s m = Some r"
proof (induction "length (filter (\<lambda>y. m_id y < m_id m) (messages s))" arbitrary: m rule: less_induct)
  case less
  show ?case
  proof (cases "parentId m")
    case None
    then show ?thesis by (subst walk_up.simps) simp
  next
    case (Some p)
    show ?thesis
    proof (cases "findUnique_message s p")
      case None
      with Some show ?thesis by (subst walk_up.simps) simp
    next
      case (Some parent)
      from findUnique_message_in[OF this] have pin: "parent \<in> set (messages s)" "m_id parent = p"
        by simp_all
      from ord less.prems \<open>parentId m = Some p\<close> have "p < m_id m" by blast
      with pin have "length (filter (\<lambda>y. m_id y < m_id parent) (messages s))
                   < length (filter (\<lambda>y. m_id y < m_id m) (messages s))"
        by (intro fewer_smaller_ids[of parent]) simp_all
      from less.hyps[OF this pin(1)] obtain r where "walk_up s parent = Some r" by blast
      with Some \<open>parentId m = Some p\<close> show ?thesis by (subst walk_up.simps) simp
    qed
  qed
qed

text \<open>
  Where every reply has a larger id than its parent, as in every store built by
  \<^verbatim>\<open>send_message\<close> with an existing \<^verbatim>\<open>replyToId\<close>, the request answers: the upward
  walk reaches a root and the downward expansion is total.
\<close>

lemma get_thread_returns:
  assumes "\<forall>m\<in>set (messages s). \<forall>p. parentId m = Some p \<longrightarrow> p < m_id m"
  shows "\<exists>resp. get_thread s startId = Some resp"
proof (cases "findUnique_message s startId")
  case None
  then show ?thesis by (simp add: get_thread_def)
next
  case (Some start)
  from walk_up_returns[OF assms, of start] findUnique_message_in[OF Some]
  obtain r where "walk_up s start = Some r" by blast
  with Some show ?thesis by (simp add: get_thread_def)
qed

text \<open>
  Claim C2 (thread resolution terminates on every store, cyclic ones included).
  The downward expansion is bounded by \<open>MAX_DEPTH\<close>, the upward walk is not: on the store
  whose only message names itself as parent, the request for its thread never answers.
\<close>

theorem get_thread_self_parent_diverges:
  "get_thread self_parent 1 = None"
proof -
  have "walk_up self_parent (mk_message 1 1 (Some 1)) = None"
    by (rule walk_up_self_parent[where p = 1]) (simp_all add: self_parent_def store_defs)
  then show ?thesis
    by (simp add: get_thread_def self_parent_def store_defs)
qed

section \<open>Mention tracker\<close>

text \<open>
  Claim C10 (an acknowledgement by anyone but the mentioned user leaves the mention
  unchanged). The handler never compares the caller with the mention's user: user 3
  acknowledging the mention of user 2 marks it read and sends both notices, the one to
  the author naming user 2 as the reader.
\<close>

theorem mark_mention_read_by_other_user:
  "mark_mention_read 5000 (mk_user 3) 1 mention_store =
     (mention_store\<lparr>mentions := [\<lparr>mn_id = 1, mn_userId = 2, mn_messageId = 1,
                                   isRead = True, readAt = Some 5000\<rparr>]\<rparr>,
      [(UserRoom 1, MentionReadStatus 1 1 2 ''u'' (Some 5000)),
       (UserRoom 2, MyMentionUpdated \<lparr>mn_id = 1, mn_userId = 2, mn_messageId = 1,
                                      isRead = True, readAt = Some 5000\<rparr>)])"
  by (simp add: mention_store_def store_defs mark_mention_read_def Let_def)

end
